theory Spec2Isabelle
  imports Main "HOL-Library.Word"
begin

section \<open>Package lines: a reader that maps byte offsets to line and column\<close>

text \<open>
  The development follows \<^verbatim>\<open>lines/lines.go\<close>. Go's \<^verbatim>\<open>int64\<close> is a 64-bit word read
  with \<open>sint\<close>; \<open>+\<close> and \<open>-\<close> wrap as Go's do, and \<open><s\<close> is the signed comparison.
  Go's \<^verbatim>\<open>int\<close> is taken to be 64 bits wide. Slice indices and lengths, which are bounded
  by the length of a list, are \<open>nat\<close> or \<open>int\<close>.
\<close>

type_synonym byte = "8 word"
type_synonym int64 = "64 word"

subsection \<open>Outcomes, errors and the lock\<close>

text \<open>Go's \<^verbatim>\<open>error\<close> values; \<^verbatim>\<open>nil\<close> is \<open>None\<close> of \<open>error option\<close>.\<close>

datatype error = EOF | ErrOther string

text \<open>
  A call either returns, or panics with a message, or cannot take the lock it needs and
  waits (\<open>Blocked\<close>) until the holder releases it.
\<close>

datatype 'a outcome = Returned 'a | Panicked string | Blocked

text \<open>
  \<^verbatim>\<open>sync.RWMutex\<close>: free, held by one writer, or held by readers; \<open>RLocked k\<close> is
  the lock held by \<open>k + 1\<close> readers. \<open>Lock\<close> and \<open>RLock\<close> give \<open>None\<close> where the
  caller has to wait. The deferred \<^verbatim>\<open>Unlock\<close> and \<^verbatim>\<open>RUnlock\<close> only run on a lock
  the same call has taken.
\<close>

datatype rwmutex = Unlocked | WLocked | RLocked nat

definition Lock :: "rwmutex \<Rightarrow> rwmutex option" where
  "Lock m = (if m = Unlocked then Some WLocked else None)"

definition Unlock :: "rwmutex \<Rightarrow> rwmutex" where
  "Unlock m = Unlocked"

definition RLock :: "rwmutex \<Rightarrow> rwmutex option" where
  "RLock m = (case m of Unlocked \<Rightarrow> Some (RLocked 0)
                      | RLocked k \<Rightarrow> Some (RLocked (Suc k))
                      | WLocked \<Rightarrow> None)"

definition RUnlock :: "rwmutex \<Rightarrow> rwmutex" where
  "RUnlock m = (case m of RLocked 0 \<Rightarrow> Unlocked
                        | RLocked (Suc k) \<Rightarrow> RLocked k
                        | _ \<Rightarrow> m)"

subsection \<open>The wrapped source\<close>

text \<open>
  An \<^verbatim>\<open>io.Reader\<close> is a value with one method, \<^verbatim>\<open>Read(p []byte) (n int, err error)\<close>.
  The model is the source's own state together with its method: given the state and the
  buffer, the method gives the buffer as the source left it, the count, the error and the
  source's next state.
\<close>

record 's io_Reader =
  state :: 's
  read_fn :: "'s \<Rightarrow> byte list \<Rightarrow> (byte list \<times> int \<times> error option) \<times> 's"

definition io_Read ::
  "'s io_Reader \<Rightarrow> byte list \<Rightarrow> (byte list \<times> int \<times> error option) \<times> 's io_Reader" where
  "io_Read s p = (case read_fn s (state s) p of (res, st') \<Rightarrow> (res, s\<lparr>state := st'\<rparr>))"

text \<open>
  The contract of \<^verbatim>\<open>io.Reader\<close>: \<open>0 \<le> n \<le> len(p)\<close>, and the buffer keeps its length.
\<close>

definition wf_source :: "'s io_Reader \<Rightarrow> bool" where
  "wf_source s \<longleftrightarrow>
     (\<forall>st p. case read_fn s st p of
        ((p', n, err), st') \<Rightarrow> 0 \<le> n \<and> n \<le> int (length p) \<and> length p' = length p)"

text \<open>
  \<^verbatim>\<open>strings.NewReader(s)\<close>: the state is the unread rest of the string.
  \<^verbatim>\<open>Read\<close> gives \<^verbatim>\<open>(0, io.EOF)\<close> at the end, and otherwise copies as much as fits.
\<close>

definition strings_Read :: "byte list \<Rightarrow> byte list \<Rightarrow> (byte list \<times> int \<times> error option) \<times> byte list" where
  "strings_Read rest p =
     (if rest = [] then ((p, 0, Some EOF), rest)
      else (let n = min (length p) (length rest)
            in ((take n rest @ drop n p, int n, None), drop n rest)))"

definition strings_NewReader :: "byte list \<Rightarrow> byte list io_Reader" where
  "strings_NewReader s = \<lparr>state = s, read_fn = strings_Read\<rparr>"

subsection \<open>The Reader\<close>

text \<open>The struct \<^verbatim>\<open>Reader\<close>; its field \<^verbatim>\<open>r\<close> is \<open>src\<close> here.\<close>

record 's Reader =
  mu :: rwmutex
  src :: "'s io_Reader"
  offs :: int64
  lines :: "int64 list"

definition NewReader :: "'s io_Reader \<Rightarrow> 's Reader" where
  "NewReader s = \<lparr>mu = Unlocked, src = s, offs = 0, lines = []\<rparr>"

subsection \<open>Read\<close>

text \<open>\<^verbatim>\<open>bytes.IndexByte(b, c)\<close>: the index of the first \<open>c\<close> in \<open>b\<close>, or \<open>-1\<close>.\<close>

fun IndexByte :: "byte list \<Rightarrow> byte \<Rightarrow> int" where
  "IndexByte [] c = -1"
| "IndexByte (x # xs) c =
     (if x = c then 0
      else (let k = IndexByte xs c in if k < 0 then -1 else k + 1))"

text \<open>
  The slice expression \<^verbatim>\<open>p[i:n]\<close>; out of range it panics (\<open>None\<close>). The buffer's
  capacity is its length.
\<close>

definition slice :: "byte list \<Rightarrow> int \<Rightarrow> int \<Rightarrow> byte list option" where
  "slice p i n =
     (if 0 \<le> i \<and> i \<le> n \<and> n \<le> int (length p)
      then Some (take (nat (n - i)) (drop (nat i) p)) else None)"

text \<open>
  The loop of \<^verbatim>\<open>Read\<close>, from \<open>i\<close>:
  \<^verbatim>\<open>for i := 0; i < n; { j := bytes.IndexByte(p[i:n], '\n'); if j < 0 { break };
       i += j + 1; r.lines = append(r.lines, r.offs+int64(i)) }\<close>
  The result is the new \<^verbatim>\<open>r.lines\<close>, or \<open>None\<close> when the slice expression panics.
\<close>

function Read_loop :: "byte list \<Rightarrow> int \<Rightarrow> int \<Rightarrow> int64 \<Rightarrow> int64 list \<Rightarrow> int64 list option" where
  "Read_loop p n i off ls =
     (if i < n then
        (case slice p i n of
           None \<Rightarrow> None
         | Some b \<Rightarrow>
             (let j = IndexByte b 10
              in if j < 0 then Some ls
                 else Read_loop p n (i + (j + 1)) off (ls @ [off + of_int (i + (j + 1))])))
      else Some ls)"
  by pat_completeness auto
termination
  by (relation "measure (\<lambda>(p, n, i, off, ls). nat (n - i))") auto

declare Read_loop.simps [simp del]

text \<open>The call \<^verbatim>\<open>r.r.Read(p)\<close>: the source runs, and the Reader holds its next state.\<close>

definition Read_source ::
  "'s Reader \<Rightarrow> byte list \<Rightarrow> (byte list \<times> int \<times> error option) \<times> 's Reader" where
  "Read_source r p = (case io_Read (src r) p of (res, s') \<Rightarrow> (res, r\<lparr>src := s'\<rparr>))"

text \<open>
  \<^verbatim>\<open>Read\<close> statement by statement. A call in progress is at one of these points:
  before \<^verbatim>\<open>r.mu.Lock()\<close> (line 34), holding the caller's buffer; before
  \<^verbatim>\<open>n, err = r.r.Read(p)\<close> (line 37); before the loop and \<^verbatim>\<open>r.offs += int64(n)\<close>
  (lines 38 to 46), holding what the source gave; before the deferred
  \<^verbatim>\<open>r.mu.Unlock()\<close> (line 35), holding the outcome; and returned.
\<close>

datatype Read_pc =
    AtLock "byte list"
  | AtSource "byte list"
  | AtScan "byte list" int "error option"
  | AtUnlock "(int \<times> error option \<times> byte list) outcome"
  | AtReturn "(int \<times> error option \<times> byte list) outcome"

text \<open>
  One statement of \<^verbatim>\<open>Read\<close>, on the point of the call and the Reader as every
  execution context sees it. A call that cannot take the lock stays where it is. A panic of
  the slice expression leaves the index and \<^verbatim>\<open>r.offs\<close> alone and goes to the deferred
  unlock. A returned value is the count, the error and the buffer as the caller sees it.
\<close>

fun Read_step :: "Read_pc \<times> 's Reader \<Rightarrow> Read_pc \<times> 's Reader" where
  "Read_step (AtLock p, r) =
     (case Lock (mu r) of
        None \<Rightarrow> (AtLock p, r)
      | Some m \<Rightarrow> (AtSource p, r\<lparr>mu := m\<rparr>))"
| "Read_step (AtSource p, r) =
     (case Read_source r p of ((p', n, err), r1) \<Rightarrow> (AtScan p' n err, r1))"
| "Read_step (AtScan p' n err, r) =
     (case Read_loop p' n 0 (offs r) (lines r) of
        None \<Rightarrow> (AtUnlock (Panicked ''slice bounds out of range''), r)
      | Some ls \<Rightarrow>
          (AtUnlock (Returned (n, err, p')), r\<lparr>offs := offs r + of_int n, lines := ls\<rparr>))"
| "Read_step (AtUnlock res, r) = (AtReturn res, r\<lparr>mu := Unlock (mu r)\<rparr>)"
| "Read_step (AtReturn res, r) = (AtReturn res, r)"

text \<open>
  The points a call \<^verbatim>\<open>r.Read(p)\<close> passes through, each with the Reader as it is
  there: the call has four statements. Between two of them another execution context can
  run a query on the Reader of that point; while the wrapped source's \<^verbatim>\<open>Read\<close> is
  running, that is the Reader of the point \<open>AtSource\<close>.
\<close>

definition Read_run :: "'s Reader \<Rightarrow> byte list \<Rightarrow> (Read_pc \<times> 's Reader) list" where
  "Read_run r p =
     (let c0 = (AtLock p, r); c1 = Read_step c0; c2 = Read_step c1;
          c3 = Read_step c2; c4 = Read_step c3
      in [c0, c1, c2, c3, c4])"

text \<open>
  \<^verbatim>\<open>Read\<close>: what the call returns and the Reader it leaves, or \<open>Blocked\<close> when it is
  still waiting for the lock.
\<close>

definition Read ::
  "'s Reader \<Rightarrow> byte list \<Rightarrow> (int \<times> error option \<times> byte list) outcome \<times> 's Reader" where
  "Read r p =
     (case last (Read_run r p) of
        (AtReturn res, r') \<Rightarrow> (res, r')
      | (AtLock q, r') \<Rightarrow> (Blocked, r')
      | (AtSource q, r') \<Rightarrow> (Blocked, r')
      | (AtScan q n err, r') \<Rightarrow> (Blocked, r')
      | (AtUnlock res, r') \<Rightarrow> (Blocked, r'))"

text \<open>The points of a call between \<^verbatim>\<open>r.mu.Lock()\<close> and the deferred \<^verbatim>\<open>r.mu.Unlock()\<close>.\<close>

fun lock_taken :: "Read_pc \<Rightarrow> bool" where
  "lock_taken (AtLock p) = False"
| "lock_taken (AtSource p) = True"
| "lock_taken (AtScan p' n err) = True"
| "lock_taken (AtUnlock res) = True"
| "lock_taken (AtReturn res) = False"

subsection \<open>Size, Position and Reset\<close>

definition Size :: "'s Reader \<Rightarrow> int64 outcome \<times> 's Reader" where
  "Size r =
     (case RLock (mu r) of
        None \<Rightarrow> (Blocked, r)
      | Some m \<Rightarrow> (let r1 = r\<lparr>mu := m\<rparr> in (Returned (offs r1), r1\<lparr>mu := RUnlock (mu r1)\<rparr>)))"

text \<open>
  \<^verbatim>\<open>sort.Search(n, f)\<close> of Go's standard library:
  \<^verbatim>\<open>i, j := 0, n; for i < j { h := int(uint(i+j) >> 1); if !f(h) { i = h + 1 } else { j = h } }; return i\<close>
\<close>

function Search_loop :: "(nat \<Rightarrow> bool) \<Rightarrow> nat \<Rightarrow> nat \<Rightarrow> nat" where
  "Search_loop f i j =
     (if i < j then
        (let h = (i + j) div 2
         in if \<not> f h then Search_loop f (h + 1) j else Search_loop f i h)
      else i)"
  by pat_completeness auto
termination
  by (relation "measure (\<lambda>(f, i, j). j - i)") auto

declare Search_loop.simps [simp del]

definition Search :: "nat \<Rightarrow> (nat \<Rightarrow> bool) \<Rightarrow> nat" where
  "Search n f = Search_loop f 0 n"

text \<open>
  The body of \<^verbatim>\<open>Position\<close> under the read lock. Line and column are Go \<^verbatim>\<open>int\<close>s; the
  column is the conversion of an \<^verbatim>\<open>int64\<close> expression, computed with wrap-around.
\<close>

definition Position_locked :: "'s Reader \<Rightarrow> int64 \<Rightarrow> (int \<times> int) outcome" where
  "Position_locked r off =
     (if off <s 0 then Panicked ''Position called with negative offset''
      else (let i = Search (length (lines r)) (\<lambda>i. off <s lines r ! i)
            in if i = 0 then Returned (1, sint (off + 1))
               else Returned (int i + 1, sint (off - lines r ! (i - 1) + 1))))"

definition Position :: "'s Reader \<Rightarrow> int64 \<Rightarrow> (int \<times> int) outcome \<times> 's Reader" where
  "Position r off =
     (case RLock (mu r) of
        None \<Rightarrow> (Blocked, r)
      | Some m \<Rightarrow>
          (let r1 = r\<lparr>mu := m\<rparr> in (Position_locked r1 off, r1\<lparr>mu := RUnlock (mu r1)\<rparr>)))"

definition Line :: "'s Reader \<Rightarrow> int64 \<Rightarrow> int outcome \<times> 's Reader" where
  "Line r off =
     (case Position r off of
        (Returned (l, c), r') \<Rightarrow> (Returned l, r')
      | (Panicked msg, r') \<Rightarrow> (Panicked msg, r')
      | (Blocked, r') \<Rightarrow> (Blocked, r'))"

definition Column :: "'s Reader \<Rightarrow> int64 \<Rightarrow> int outcome \<times> 's Reader" where
  "Column r off =
     (case Position r off of
        (Returned (l, c), r') \<Rightarrow> (Returned c, r')
      | (Panicked msg, r') \<Rightarrow> (Panicked msg, r')
      | (Blocked, r') \<Rightarrow> (Blocked, r'))"

text \<open>\<^verbatim>\<open>Reset\<close>; \<^verbatim>\<open>r.lines[:0]\<close> is the empty slice.\<close>

definition Reset :: "'s Reader \<Rightarrow> 's io_Reader \<Rightarrow> unit outcome \<times> 's Reader" where
  "Reset r nr =
     (case Lock (mu r) of
        None \<Rightarrow> (Blocked, r)
      | Some m \<Rightarrow>
          (let r1 = r\<lparr>mu := m\<rparr>;
               r2 = r1\<lparr>src := nr, offs := 0, lines := take 0 (lines r1)\<rparr>
           in (Returned (), r2\<lparr>mu := Unlock (mu r2)\<rparr>)))"

subsection \<open>Sequences of operations\<close>

text \<open>
  The calls that change a Reader. \<open>exec\<close> runs a sequence of them one after the other
  and stops with \<open>None\<close> if one panics or cannot take the lock. Beside the Reader it
  keeps the bytes the current source has delivered so far: each \<^verbatim>\<open>Read\<close> that returns
  \<open>n\<close> delivers the first \<open>n\<close> bytes of the buffer, and \<^verbatim>\<open>Reset\<close> starts afresh.
\<close>

datatype 's op = OpRead "byte list" | OpReset "'s io_Reader"

fun exec :: "'s op list \<Rightarrow> 's Reader \<times> byte list \<Rightarrow> ('s Reader \<times> byte list) option" where
  "exec [] (r, d) = Some (r, d)"
| "exec (OpRead p # ops) (r, d) =
     (case Read r p of
        (Returned (n, err, p'), r') \<Rightarrow> exec ops (r', d @ take (nat n) p')
      | (Panicked msg, r') \<Rightarrow> None
      | (Blocked, r') \<Rightarrow> None)"
| "exec (OpReset nr # ops) (r, d) =
     (case Reset r nr of
        (Returned u, r') \<Rightarrow> exec ops (r', [])
      | (Panicked msg, r') \<Rightarrow> None
      | (Blocked, r') \<Rightarrow> None)"

fun wf_op :: "'s op \<Rightarrow> bool" where
  "wf_op (OpRead p) = True"
| "wf_op (OpReset nr) = wf_source nr"

text \<open>
  \<^verbatim>\<open>io.Copy(io.Discard, r)\<close>, as the test consumes its input: \<^verbatim>\<open>io.Discard\<close> reads
  into one buffer until an error comes back, adds the counts up, and turns \<^verbatim>\<open>io.EOF\<close>
  into \<^verbatim>\<open>nil\<close>. The loop has no bound of its own, so the model takes fuel and gives
  \<open>None\<close> when it runs out (or when a \<^verbatim>\<open>Read\<close> panics or waits).
\<close>

fun Copy_Discard ::
  "nat \<Rightarrow> 's Reader \<Rightarrow> byte list \<Rightarrow> int64 \<Rightarrow> ((int64 \<times> error option) \<times> 's Reader) option" where
  "Copy_Discard 0 r buf n = None"
| "Copy_Discard (Suc fuel) r buf n =
     (case Read r buf of
        (Returned (readSize, err, buf'), r') \<Rightarrow>
          (let n' = n + of_int readSize
           in if err \<noteq> None
              then (if err = Some EOF then Some ((n', None), r') else Some ((n', err), r'))
              else Copy_Discard fuel r' buf' n')
      | (Panicked msg, r') \<Rightarrow> None
      | (Blocked, r') \<Rightarrow> None)"

subsection \<open>What the index should hold\<close>

text \<open>
  The offsets just after each \<open>'\n'\<close> of a byte string, in order, as \<^verbatim>\<open>int64\<close>: the
  index the Reader is meant to hold once the string has been delivered.
\<close>

definition line_breaks :: "byte list \<Rightarrow> int64 list" where
  "line_breaks d = map (\<lambda>k. of_nat (Suc k)) (filter (\<lambda>k. d ! k = 10) [0..<length d])"

text \<open>The Reader is idle and its fields describe the delivered bytes \<open>d\<close>.\<close>

definition tracks :: "'s Reader \<Rightarrow> byte list \<Rightarrow> bool" where
  "tracks r d \<longleftrightarrow> mu r = Unlocked \<and> offs r = of_nat (length d) \<and> lines r = line_breaks d"

text \<open>
  The index of the first entry strictly greater than \<open>off\<close> in a list, or its length if
  there is none: a linear scan, to compare the binary search with.
\<close>

definition first_greater :: "int64 \<Rightarrow> int64 list \<Rightarrow> nat" where
  "first_greater off ls = length (takeWhile (\<lambda>e. \<not> off <s e) ls)"

text \<open>Bytes of a string literal.\<close>

definition bytes_of :: "string \<Rightarrow> byte list" where
  "bytes_of s = map (\<lambda>c. of_nat (of_char c)) s"

subsection \<open>The test's way of consuming an input\<close>

text \<open>
  \<^verbatim>\<open>TestLines\<close> builds \<^verbatim>\<open>NewReader(strings.NewReader(tc.in))\<close>, copies it to
  \<^verbatim>\<open>io.Discard\<close>, whose buffer has 8192 bytes, and asks for one position.
\<close>

definition TestLines_reader :: "string \<Rightarrow> byte list Reader option" where
  "TestLines_reader inp =
     map_option snd
       (Copy_Discard (Suc (Suc (length inp))) (NewReader (strings_NewReader (bytes_of inp)))
          (replicate 8192 0) 0)"

definition TestLines_case :: "string \<Rightarrow> int64 \<Rightarrow> (int \<times> int) outcome option" where
  "TestLines_case inp off = map_option (\<lambda>r. fst (Position r off)) (TestLines_reader inp)"

text \<open>A Reader that has consumed \<^verbatim>\<open>"foo\nbar\nbaz"\<close> and is idle.\<close>

definition foo_bar_baz :: "byte list Reader" where
  "foo_bar_baz = \<lparr>mu = Unlocked, src = strings_NewReader [], offs = 11, lines = [4, 8]\<rparr>"

section \<open>The scanning loop\<close>

lemma sint_of_nat64: "k < 2 ^ 63 \<Longrightarrow> sint (of_nat k :: int64) = int k"
  by (simp add: signed_of_nat signed_take_bit_int_eq_self)

lemma IndexByte_absent: "c \<notin> set b \<Longrightarrow> IndexByte b c = -1"
  by (induction b) (auto simp: Let_def)

lemma IndexByte_present:
  "c \<in> set b \<Longrightarrow> \<exists>j. IndexByte b c = int j \<and> j < length b \<and> b ! j = c \<and> (\<forall>k<j. b ! k \<noteq> c)"
proof (induction b)
  case Nil
  then show ?case by simp
next
  case (Cons x xs)
  show ?case
  proof (cases "x = c")
    case True
    then show ?thesis by simp
  next
    case False
    with Cons.prems have "c \<in> set xs" by simp
    from Cons.IH [OF this] obtain j where
      j: "IndexByte xs c = int j" "j < length xs" "xs ! j = c" "\<forall>k<j. xs ! k \<noteq> c"
      by blast
    have "\<forall>k<Suc j. (x # xs) ! k \<noteq> c"
      using False j(4) by (auto simp: nth_Cons split: nat.splits)
    with False j(1,2,3) show ?thesis
      by (intro exI [of _ "Suc j"]) (simp add: Let_def)
  qed
qed

lemma filter_upt_first:
  assumes "a \<le> m" "m < b" "P m" "\<forall>k. a \<le> k \<and> k < m \<longrightarrow> \<not> P k"
  shows "filter P [a..<b] = m # filter P [Suc m..<b]"
proof -
  have "[a..<b] = [a..<m] @ m # [Suc m..<b]"
    using assms(1,2) by (metis le_add_diff_inverse less_imp_le_nat upt_add_eq_append upt_conv_Cons)
  moreover have "filter P [a..<m] = []"
    using assms(4) by (auto simp: filter_empty_conv)
  ultimately show ?thesis using assms(3) by simp
qed

lemma Read_loop_eq:
  "0 \<le> i \<Longrightarrow> i \<le> n \<Longrightarrow> n \<le> int (length p) \<Longrightarrow>
   Read_loop p n i off ls =
     Some (ls @ map (\<lambda>k. off + of_nat (Suc k)) (filter (\<lambda>k. p ! k = 10) [nat i..<nat n]))"
proof (induction p n i off ls rule: Read_loop.induct)
  case (1 p n i off ls)
  show ?case
  proof (cases "i < n")
    case False
    with "1.prems" have "nat i = nat n" by simp
    with False show ?thesis by (simp add: Read_loop.simps [of p n i])
  next
    case True
    define b where "b = take (nat (n - i)) (drop (nat i) p)"
    have sl: "slice p i n = Some b"
      using "1.prems" by (simp add: slice_def b_def)
    have lenb: "length b = nat (n - i)"
      using "1.prems" by (simp add: b_def)
    have nthb: "\<And>k. k < nat (n - i) \<Longrightarrow> b ! k = p ! (nat i + k)"
      using "1.prems" by (simp add: b_def)
    show ?thesis
    proof (cases "10 \<in> set b")
      case False
      have "filter (\<lambda>k. p ! k = 10) [nat i..<nat n] = []"
      proof (clarsimp simp: filter_empty_conv)
        fix k assume k: "nat i \<le> k" "k < nat n" "p ! k = 10"
        then have "k - nat i < nat (n - i)" using "1.prems" by linarith
        then have "b ! (k - nat i) = p ! k" "k - nat i < length b"
          using nthb [of "k - nat i"] k lenb by simp_all
        then show False using False k(3) by (metis nth_mem)
      qed
      moreover have "IndexByte b 10 < 0" using False by (simp add: IndexByte_absent)
      ultimately show ?thesis
        using True sl by (simp add: Read_loop.simps [of p n i])
    next
      case in_b: True
      from IndexByte_present [OF in_b] obtain j where
        j: "IndexByte b 10 = int j" "j < length b" "b ! j = 10" "\<forall>k<j. b ! k \<noteq> 10"
        by blast
      let ?m = "nat i + j"
      have m1: "nat i \<le> ?m" "?m < nat n"
        using j(2) lenb "1.prems" by linarith+
      have m2: "p ! ?m = 10"
        using nthb [of j] j(2,3) lenb by simp
      have m3: "\<forall>k. nat i \<le> k \<and> k < ?m \<longrightarrow> p ! k \<noteq> 10"
      proof (intro allI impI)
        fix k assume k: "nat i \<le> k \<and> k < ?m"
        then have "k - nat i < j" by linarith
        moreover from this have "b ! (k - nat i) = p ! k"
          using nthb [of "k - nat i"] j(2) lenb k by simp
        ultimately show "p ! k \<noteq> 10" using j(4) by metis
      qed
      have split: "filter (\<lambda>k. p ! k = 10) [nat i..<nat n]
                   = ?m # filter (\<lambda>k. p ! k = 10) [Suc ?m..<nat n]"
        using m1 m2 m3 by (intro filter_upt_first) simp_all
      have i': "nat (i + (int j + 1)) = Suc ?m"
        using "1.prems" by simp
      have w: "(of_int (i + (int j + 1)) :: int64) = of_nat (Suc ?m)"
        using "1.prems"(1) by (metis i' word_of_int_nat add_nonneg_nonneg of_nat_0_le_iff zero_le_one)
      have bounds: "0 \<le> i + (int j + 1)" "i + (int j + 1) \<le> n"
        using "1.prems" m1 by linarith+
      have "Read_loop p n i off ls =
            Read_loop p n (i + (int j + 1)) off (ls @ [off + of_int (i + (int j + 1))])"
        using True sl j(1) by (simp add: Read_loop.simps [of p n i])
      also have "\<dots> = Some ((ls @ [off + of_int (i + (int j + 1))]) @
            map (\<lambda>k. off + of_nat (Suc k))
              (filter (\<lambda>k. p ! k = 10) [nat (i + (int j + 1))..<nat n]))"
        using True sl j(1) bounds "1.prems"(3)
        by (intro "1.IH" [of b "int j"]) simp_all
      also have "\<dots> = Some (ls @ map (\<lambda>k. off + of_nat (Suc k))
              (filter (\<lambda>k. p ! k = 10) [nat i..<nat n]))"
        unfolding split i' w by simp
      finally show ?thesis .
    qed
  qed
qed

section \<open>One call of Read\<close>

lemma Lock_Unlocked: "Lock Unlocked = Some WLocked"
  by (simp add: Lock_def)

lemma RUnlock_RLock: "RLock m = Some m' \<Longrightarrow> RUnlock m' = m"
  by (auto simp: RLock_def RUnlock_def split: rwmutex.splits)

lemma RLock_Some: "m \<noteq> WLocked \<Longrightarrow> \<exists>m'. RLock m = Some m'"
  by (cases m) (simp_all add: RLock_def)

text \<open>The four statements of \<^verbatim>\<open>Read\<close> in one piece.\<close>

lemma Read_sequential:
  "Read r p =
     (case Lock (mu r) of
        None \<Rightarrow> (Blocked, r)
      | Some m \<Rightarrow>
          (case Read_source (r\<lparr>mu := m\<rparr>) p of
             ((p', n, err), r1) \<Rightarrow>
               (case Read_loop p' n 0 (offs r1) (lines r1) of
                  None \<Rightarrow> (Panicked ''slice bounds out of range'', r1\<lparr>mu := Unlock (mu r1)\<rparr>)
                | Some ls \<Rightarrow>
                    (Returned (n, err, p'),
                     r1\<lparr>offs := offs r1 + of_int n, lines := ls, mu := Unlock (mu r1)\<rparr>))))"
  by (simp add: Read_def Read_run_def Let_def split: option.splits prod.splits)

lemma Read_eq:
  assumes "mu r = Unlocked" and "io_Read (src r) p = ((p', n, err), s')"
    and "n \<le> int (length p')"
  shows "Read r p =
     (Returned (n, err, p'),
      r\<lparr>src := s', offs := offs r + of_int n,
        lines := lines r @ map (\<lambda>k. offs r + of_nat (Suc k))
                              (filter (\<lambda>k. p' ! k = 10) [0..<nat n])\<rparr>)"
proof -
  have loop: "Read_loop p' n 0 (offs r) (lines r) =
      Some (lines r @ map (\<lambda>k. offs r + of_nat (Suc k)) (filter (\<lambda>k. p' ! k = 10) [0..<nat n]))"
  proof (cases "0 \<le> n")
    case True
    then show ?thesis
      using assms(3) Read_loop_eq [of 0 n p' "offs r" "lines r"] by simp
  next
    case False
    then show ?thesis by (simp add: Read_loop.simps [of p' n 0])
  qed
  obtain s0 o0 l0 where r: "r = \<lparr>mu = Unlocked, src = s0, offs = o0, lines = l0\<rparr>"
    using assms(1) by (cases r) auto
  have so: "Read_source (r\<lparr>mu := WLocked\<rparr>) p = ((p', n, err), r\<lparr>mu := WLocked, src := s'\<rparr>)"
    using assms(2) by (simp add: Read_source_def)
  have sq: "Read r p =
     (Returned (n, err, p'),
      r\<lparr>mu := WLocked, src := s', offs := offs r + of_int n,
        lines := lines r @ map (\<lambda>k. offs r + of_nat (Suc k))
                              (filter (\<lambda>k. p' ! k = 10) [0..<nat n]), mu := Unlocked\<rparr>)"
    using assms(1) loop by (simp add: Read_sequential Lock_def so Unlock_def)
  have "r\<lparr>mu := WLocked, src := s', offs := offs r + of_int n,
        lines := lines r @ map (\<lambda>k. offs r + of_nat (Suc k))
                              (filter (\<lambda>k. p' ! k = 10) [0..<nat n]), mu := Unlocked\<rparr>
      = r\<lparr>src := s', offs := offs r + of_int n,
        lines := lines r @ map (\<lambda>k. offs r + of_nat (Suc k))
                              (filter (\<lambda>k. p' ! k = 10) [0..<nat n])\<rparr>"
    by (simp add: r)
  then show ?thesis
    by (simp only: sq)
qed

lemma wf_source_io_Read:
  assumes "wf_source s" and "io_Read s p = ((p', n, err), s')"
  shows "0 \<le> n \<and> n \<le> int (length p) \<and> length p' = length p \<and> wf_source s'"
proof -
  obtain res st' where rf0: "read_fn s (state s) p = (res, st')"
    by (cases "read_fn s (state s) p") 
  with assms(2) have rf: "read_fn s (state s) p = ((p', n, err), st')" and s': "s' = s\<lparr>state := st'\<rparr>"
    by (simp_all add: io_Read_def)
  have "0 \<le> n \<and> n \<le> int (length p) \<and> length p' = length p"
    using assms(1) [unfolded wf_source_def, THEN spec, THEN spec, of p "state s"]
    by (simp add: rf)
  moreover have "wf_source s'" using assms(1) by (simp add: wf_source_def s')
  ultimately show ?thesis by simp
qed

section \<open>The index after a sequence of calls\<close>

lemma line_breaks_snoc:
  "line_breaks (d @ [x]) = line_breaks d @ (if x = 10 then [of_nat (Suc (length d))] else [])"
proof -
  have "filter (\<lambda>k. (d @ [x]) ! k = 10) [0..<length d] = filter (\<lambda>k. d ! k = 10) [0..<length d]"
    by (rule filter_cong) (simp_all add: nth_append)
  then show ?thesis
    by (simp add: line_breaks_def)
qed

lemma line_breaks_take:
  "n \<le> length p \<Longrightarrow>
   line_breaks (d @ take n p) =
     line_breaks d @ map (\<lambda>k. of_nat (length d) + of_nat (Suc k))
                        (filter (\<lambda>k. p ! k = 10) [0..<n])"
proof (induction n)
  case 0
  then show ?case by simp
next
  case (Suc n)
  then have n: "n < length p" by simp
  have "d @ take (Suc n) p = (d @ take n p) @ [p ! n]"
    using n by (simp add: take_Suc_conv_app_nth)
  then have "line_breaks (d @ take (Suc n) p) =
      line_breaks (d @ take n p) @ (if p ! n = 10 then [of_nat (Suc (length (d @ take n p)))] else [])"
    by (simp only: line_breaks_snoc)
  moreover have "length (d @ take n p) = length d + n"
    using n by simp
  moreover have "(of_nat (Suc (length d + n)) :: int64) = of_nat (length d) + of_nat (Suc n)"
    by (simp only: of_nat_add [symmetric] add_Suc_right)
  ultimately show ?case
    using Suc.IH n by simp
qed

lemma tracks_NewReader: "tracks (NewReader s) []"
  by (simp add: tracks_def NewReader_def line_breaks_def)

lemma Read_tracks:
  assumes "wf_source (src r)" and "tracks r d"
  shows "\<exists>n err p' r'. Read r p = (Returned (n, err, p'), r') \<and> 0 \<le> n \<and> n \<le> int (length p)
           \<and> length p' = length p \<and> tracks r' (d @ take (nat n) p') \<and> wf_source (src r')
           \<and> io_Read (src r) p = ((p', n, err), src r')"
proof -
  obtain p' n err s' where io: "io_Read (src r) p = ((p', n, err), s')"
    by (cases "io_Read (src r) p") auto
  from wf_source_io_Read [OF assms(1) io]
  have n: "0 \<le> n" "n \<le> int (length p)" "length p' = length p" "wf_source s'" by simp_all
  let ?e = "take (nat n) p'"
  let ?new = "map (\<lambda>k. offs r + of_nat (Suc k)) (filter (\<lambda>k. p' ! k = 10) [0..<nat n])"
  let ?r' = "r\<lparr>src := s', offs := offs r + of_int n, lines := lines r @ ?new\<rparr>"
  have rd: "Read r p = (Returned (n, err, p'), ?r')"
    using assms(2) io n by (intro Read_eq) (simp_all add: tracks_def)
  have len_e: "length ?e = nat n" using n by simp
  have "line_breaks (d @ ?e) = line_breaks d @
      map (\<lambda>k. of_nat (length d) + of_nat (Suc k)) (filter (\<lambda>k. p' ! k = 10) [0..<nat n])"
    using n by (intro line_breaks_take) simp
  then have l: "lines ?r' = line_breaks (d @ ?e)"
    using assms(2) by (simp add: tracks_def)
  have "(of_int n :: int64) = of_nat (nat n)"
    using n(1) by (rule word_of_int_nat)
  then have o: "offs ?r' = of_nat (length (d @ ?e))"
    using assms(2) len_e by (simp add: tracks_def del: length_take)
  have m: "mu ?r' = Unlocked" using assms(2) by (simp add: tracks_def)
  have t: "tracks ?r' (d @ ?e)"
    unfolding tracks_def using l o m by blast
  have s: "src ?r' = s'" by simp
  show ?thesis
    using rd n io t s
    by (intro exI [of _ n] exI [of _ err] exI [of _ p'] exI [of _ ?r']) simp
qed

lemma Reset_eq: "mu r = Unlocked \<Longrightarrow> Reset r nr = (Returned (), NewReader nr)"
  by (cases r) (simp add: Reset_def Lock_def Unlock_def NewReader_def)

lemma exec_tracks:
  "wf_source (src r) \<Longrightarrow> list_all wf_op ops \<Longrightarrow> tracks r d \<Longrightarrow>
   \<exists>r' d'. exec ops (r, d) = Some (r', d') \<and> tracks r' d' \<and> wf_source (src r')"
proof (induction ops arbitrary: r d)
  case Nil
  then show ?case by simp
next
  case (Cons x ops)
  show ?case
  proof (cases x)
    case (OpRead p)
    from Read_tracks [OF Cons.prems(1,3), of p] obtain n err p' r1 where
      rd: "Read r p = (Returned (n, err, p'), r1)" and t: "tracks r1 (d @ take (nat n) p')"
      and w: "wf_source (src r1)"
      by blast
    from Cons.prems(2) have "list_all wf_op ops" by simp
    from Cons.IH [OF w this t] show ?thesis
      by (simp add: OpRead rd)
  next
    case (OpReset nr)
    have rs: "Reset r nr = (Returned (), NewReader nr)"
      using Cons.prems(3) by (intro Reset_eq) (simp add: tracks_def)
    from Cons.prems(2) OpReset have w: "wf_source (src (NewReader nr))" "list_all wf_op ops"
      by (simp_all add: NewReader_def)
    from Cons.IH [OF w tracks_NewReader] show ?thesis
      by (simp add: OpReset rs)
  qed
qed

lemma exec_reads_extend:
  "exec (map OpRead ps) (r, d) = Some (r', d') \<Longrightarrow> \<exists>e. d' = d @ e"
proof (induction ps arbitrary: r d)
  case Nil
  then show ?case by simp
next
  case (Cons p ps)
  obtain res r1 where rd: "Read r p = (res, r1)" by (cases "Read r p")
  show ?case
  proof (cases res)
    case (Returned v)
    obtain n err p' where v: "v = (n, err, p')" by (cases v)
    from Cons.prems have "exec (map OpRead ps) (r1, d @ take (nat n) p') = Some (r', d')"
      by (simp add: rd Returned v)
    from Cons.IH [OF this] show ?thesis by auto
  next
    case (Panicked msg)
    with Cons.prems rd show ?thesis by simp
  next
    case Blocked
    with Cons.prems rd show ?thesis by simp
  qed
qed

lemma Search_loop_spec:
  "(\<forall>a b. a \<le> b \<and> b < n \<and> f a \<longrightarrow> f b) \<Longrightarrow>
   i \<le> j \<Longrightarrow> j \<le> n \<Longrightarrow> (\<forall>k<i. \<not> f k) \<Longrightarrow> (\<forall>k. j \<le> k \<and> k < n \<longrightarrow> f k) \<Longrightarrow>
     i \<le> Search_loop f i j \<and> Search_loop f i j \<le> j \<and>
     (\<forall>k<Search_loop f i j. \<not> f k) \<and> (\<forall>k. Search_loop f i j \<le> k \<and> k < n \<longrightarrow> f k)"
proof (induction f i j rule: Search_loop.induct)
  case (1 f i j)
  note mono = "1.prems"(1) and ij = "1.prems"(2) and jn = "1.prems"(3)
    and lo = "1.prems"(4) and hi = "1.prems"(5)
  show ?case
  proof (cases "i < j")
    case False
    then have eq: "Search_loop f i j = i" by (simp add: Search_loop.simps [of f i j])
    from False ij have "i = j" by simp
    with lo hi show ?thesis unfolding eq by simp
  next
    case True
    define h where "h = (i + j) div 2"
    have h: "i \<le> h" "h < j" using True by (simp_all add: h_def)
    show ?thesis
    proof (cases "f h")
      case False
      have below: "\<forall>k<h + 1. \<not> f k"
      proof (intro allI impI)
        fix k assume "k < h + 1"
        then have "k \<le> h" by simp
        moreover have "h < n" using h jn by simp
        ultimately show "\<not> f k" using mono False by blast
      qed
      have eq: "Search_loop f i j = Search_loop f (h + 1) j"
        using True False by (simp add: Search_loop.simps [of f i j] h_def Let_def)
      have "h + 1 \<le> Search_loop f (h + 1) j \<and> Search_loop f (h + 1) j \<le> j \<and>
            (\<forall>k<Search_loop f (h + 1) j. \<not> f k) \<and>
            (\<forall>k. Search_loop f (h + 1) j \<le> k \<and> k < n \<longrightarrow> f k)"
      proof (rule "1.IH"(1) [of h])
        show "i < j" by (rule True)
        show "h = (i + j) div 2" by (rule h_def)
        show "\<not> f h" by (rule False)
        show "\<forall>a b. a \<le> b \<and> b < n \<and> f a \<longrightarrow> f b" by (rule mono)
        show "h + 1 \<le> j" using h by simp
        show "j \<le> n" by (rule jn)
        show "\<forall>k<h + 1. \<not> f k" by (rule below)
        show "\<forall>k. j \<le> k \<and> k < n \<longrightarrow> f k" by (rule hi)
      qed
      then show ?thesis unfolding eq using h by simp
    next
      case fh: True
      have above: "\<forall>k. h \<le> k \<and> k < n \<longrightarrow> f k"
        using mono fh by blast
      have eq: "Search_loop f i j = Search_loop f i h"
        using True fh by (simp add: Search_loop.simps [of f i j] h_def Let_def)
      have "i \<le> Search_loop f i h \<and> Search_loop f i h \<le> h \<and>
            (\<forall>k<Search_loop f i h. \<not> f k) \<and>
            (\<forall>k. Search_loop f i h \<le> k \<and> k < n \<longrightarrow> f k)"
      proof (rule "1.IH"(2) [of h])
        show "i < j" by (rule True)
        show "h = (i + j) div 2" by (rule h_def)
        show "\<not> \<not> f h" using fh by simp
        show "\<forall>a b. a \<le> b \<and> b < n \<and> f a \<longrightarrow> f b" by (rule mono)
        show "i \<le> h" by (rule h(1))
        show "h \<le> n" using h jn by simp
        show "\<forall>k<i. \<not> f k" by (rule lo)
        show "\<forall>k. h \<le> k \<and> k < n \<longrightarrow> f k" by (rule above)
      qed
      then show ?thesis unfolding eq using h by simp
    qed
  qed
qed

section \<open>The index is sorted; the binary search\<close>

lemma not_sless_iff: "(\<not> (a :: int64) <s b) \<longleftrightarrow> b \<le>s a"
  by (auto simp: word_sless_alt word_sle_eq)

lemma line_breaks_sint:
  assumes "length d < 2 ^ 63" and "y \<in> set (line_breaks d)"
  shows "0 < sint y \<and> sint y \<le> int (length d)"
proof -
  from assms(2) obtain k where k: "k < length d" "y = of_nat (Suc k)"
    by (auto simp: line_breaks_def)
  then have "Suc k < 2 ^ 63" using assms(1) by simp
  then have "sint y = int (Suc k)" unfolding k(2) by (rule sint_of_nat64)
  with k(1) show ?thesis by simp
qed

lemma line_breaks_sorted:
  assumes "length d < 2 ^ 63"
  shows "sorted_wrt (\<lambda>a b. a <s b) (line_breaks d)"
  unfolding line_breaks_def
proof (rule sorted_wrt_map_mono [where R = "(<)"])
  show "sorted_wrt (<) (filter (\<lambda>k. d ! k = 10) [0..<length d])"
    by (rule sorted_wrt_filter) simp
next
  fix x y
  assume "x \<in> set (filter (\<lambda>k. d ! k = 10) [0..<length d])"
    and "y \<in> set (filter (\<lambda>k. d ! k = 10) [0..<length d])" and "x < y"
  then have "Suc x < 2 ^ 63" "Suc y < 2 ^ 63" using assms by simp_all
  then have "sint (of_nat (Suc x) :: int64) = int (Suc x)" "sint (of_nat (Suc y) :: int64) = int (Suc y)"
    by (simp_all only: sint_of_nat64)
  with \<open>x < y\<close> show "(of_nat (Suc x) :: int64) <s of_nat (Suc y)"
    by (simp add: word_sless_alt)
qed

lemma sorted_sless_distinct:
  "sorted_wrt (\<lambda>a b. (a :: int64) <s b) ls \<Longrightarrow> distinct ls"
  by (induction ls) (auto simp: word_sless_alt)

lemma length_line_breaks: "length (line_breaks d) = length (filter (\<lambda>b. b = 10) d)"
proof (induction d rule: rev_induct)
  case Nil
  show ?case by (simp add: line_breaks_def)
next
  case (snoc x xs)
  then show ?case by (simp add: line_breaks_snoc)
qed

lemma line_breaks_append_gt:
  assumes "length d + length e < 2 ^ 63"
  shows "\<exists>ys. line_breaks (d @ e) = line_breaks d @ ys \<and> (\<forall>y\<in>set ys. int (length d) < sint y)"
proof -
  let ?ys = "map (\<lambda>k. of_nat (length d) + of_nat (Suc k) :: int64) (filter (\<lambda>k. e ! k = 10) [0..<length e])"
  have "line_breaks (d @ take (length e) e) = line_breaks d @ ?ys"
    by (rule line_breaks_take) simp
  then have eq: "line_breaks (d @ e) = line_breaks d @ ?ys" by simp
  have "int (length d) < sint y" if "y \<in> set ?ys" for y
  proof -
    from that obtain k where k: "k < length e" "y = of_nat (length d) + of_nat (Suc k)"
      by auto
    have "y = of_nat (length d + Suc k)" unfolding k(2) by (simp only: of_nat_add)
    moreover have "length d + Suc k < 2 ^ 63" using k(1) assms by simp
    ultimately have "sint y = int (length d + Suc k)" by (simp only: sint_of_nat64)
    then show ?thesis by simp
  qed
  with eq show ?thesis by blast
qed

lemma first_greater_append:
  assumes "\<forall>y\<in>set ys. off <s y"
  shows "first_greater off (xs @ ys) = first_greater off xs"
proof -
  have ys: "takeWhile (\<lambda>e. \<not> off <s e) ys = []"
    using assms by (cases ys) simp_all
  show ?thesis
  proof (cases "\<forall>x\<in>set xs. \<not> off <s x")
    case True
    then have tw: "takeWhile (\<lambda>e. \<not> off <s e) xs = xs" by simp
    from True have "takeWhile (\<lambda>e. \<not> off <s e) (xs @ ys) = xs @ takeWhile (\<lambda>e. \<not> off <s e) ys"
      by (intro takeWhile_append2) simp
    then show ?thesis
      unfolding first_greater_def by (simp only: ys tw append_Nil2)
  next
    case False
    then obtain x where "x \<in> set xs" "\<not> \<not> off <s x" by blast
    then have "takeWhile (\<lambda>e. \<not> off <s e) (xs @ ys) = takeWhile (\<lambda>e. \<not> off <s e) xs"
      by (rule takeWhile_append1)
    then show ?thesis by (simp only: first_greater_def)
  qed
qed

lemma first_greater_le: "first_greater off ls \<le> length ls"
  by (simp add: first_greater_def length_takeWhile_le)

lemma filter_sle_takeWhile:
  "sorted_wrt (\<lambda>a b. a <s b) ls \<Longrightarrow>
   filter (\<lambda>e. e \<le>s off) ls = takeWhile (\<lambda>e. \<not> off <s e) ls"
proof (induction ls)
  case Nil
  then show ?case by simp
next
  case (Cons x xs)
  show ?case
  proof (cases "off <s x")
    case True
    then have "\<forall>y\<in>set xs. off <s y"
      using Cons.prems by (auto simp: word_sless_alt)
    then have "filter (\<lambda>e. e \<le>s off) xs = []"
      by (auto simp: filter_empty_conv not_sless_iff [symmetric])
    with True show ?thesis by (simp add: not_sless_iff [symmetric])
  next
    case False
    with Cons show ?thesis by (simp add: not_sless_iff)
  qed
qed

lemma sless_mono_nth:
  assumes "sorted_wrt (\<lambda>a b. a <s b) ls"
  shows "\<forall>a b. a \<le> b \<and> b < length ls \<and> off <s ls ! a \<longrightarrow> off <s ls ! b"
proof (intro allI impI)
  fix a b assume ab: "a \<le> b \<and> b < length ls \<and> off <s ls ! a"
  show "off <s ls ! b"
  proof (cases "a = b")
    case True
    with ab show ?thesis by simp
  next
    case False
    with ab have "a < b" "b < length ls" by simp_all
    then have "ls ! a <s ls ! b"
      by (rule sorted_wrt_nth_less [OF assms])
    with ab show ?thesis by (simp add: word_sless_alt)
  qed
qed

lemma Search_spec0:
  assumes mono: "\<forall>a b. a \<le> b \<and> b < n \<and> f a \<longrightarrow> f b"
  shows "Search n f \<le> n"
    and "\<And>k. k < Search n f \<Longrightarrow> \<not> f k"
    and "\<And>k. Search n f \<le> k \<Longrightarrow> k < n \<Longrightarrow> f k"
proof -
  have "0 \<le> Search_loop f 0 n \<and> Search_loop f 0 n \<le> n \<and>
     (\<forall>k<Search_loop f 0 n. \<not> f k) \<and> (\<forall>k. Search_loop f 0 n \<le> k \<and> k < n \<longrightarrow> f k)"
  proof (rule Search_loop_spec [OF mono])
    show "0 \<le> n" by simp
    show "n \<le> n" by simp
    show "\<forall>k<0. \<not> f k" by simp
    show "\<forall>k. n \<le> k \<and> k < n \<longrightarrow> f k"
    proof (intro allI impI)
      fix k assume "n \<le> k \<and> k < n"
      then have False by linarith
      then show "f k" ..
    qed
  qed
  then have s: "Search n f \<le> n \<and>
     (\<forall>k<Search n f. \<not> f k) \<and> (\<forall>k. Search n f \<le> k \<and> k < n \<longrightarrow> f k)"
    unfolding Search_def by (elim conjE) (intro conjI)
  from s show "Search n f \<le> n" by (elim conjE)
  from s show "\<And>k. k < Search n f \<Longrightarrow> \<not> f k" by blast
  from s show "\<And>k. Search n f \<le> k \<Longrightarrow> k < n \<Longrightarrow> f k" by blast
qed

lemma Search_first_greater:
  assumes "sorted_wrt (\<lambda>a b. a <s b) ls"
  shows "Search (length ls) (\<lambda>k. off <s ls ! k) = first_greater off ls"
proof -
  let ?R = "Search (length ls) (\<lambda>k. off <s ls ! k)"
  note mono = sless_mono_nth [OF assms, of off]
  have R1: "?R \<le> length ls" by (rule Search_spec0(1) [OF mono])
  have "takeWhile (\<lambda>e. \<not> off <s e) ls = take ?R ls"
  proof (rule takeWhile_eq_take_P_nth)
    fix i assume "i < ?R" "i < length ls"
    then show "\<not> off <s ls ! i" using Search_spec0(2) [OF mono] by simp
  next
    assume "?R < length ls"
    then have "off <s ls ! ?R" by (intro Search_spec0(3) [OF mono, of ?R]) simp
    then show "\<not> \<not> off <s ls ! ?R" by simp
  qed
  then have "length (takeWhile (\<lambda>e. \<not> off <s e) ls) = min (length ls) ?R"
    by (simp only: length_take)
  also have "\<dots> = ?R" using R1 by (rule min_absorb2)
  finally show ?thesis by (simp only: first_greater_def)
qed

lemma Position_unlocked:
  assumes "mu r \<noteq> WLocked"
  shows "Position r off = (Position_locked r off, r)"
proof -
  obtain m s0 o0 l0 where r: "r = \<lparr>mu = m, src = s0, offs = o0, lines = l0\<rparr>"
    by (cases r) auto
  from assms obtain m' where m': "RLock m = Some m'"
    using RLock_Some [of m] by (auto simp: r)
  have "RUnlock m' = m" using m' by (rule RUnlock_RLock)
  then show ?thesis
    by (simp add: Position_def m' r Let_def Position_locked_def)
qed

lemma Position_locked_sorted:
  assumes "\<not> off <s 0" and "sorted_wrt (\<lambda>a b. a <s b) (lines r)"
  shows "Position_locked r off =
     (if first_greater off (lines r) = 0 then Returned (1, sint (off + 1))
      else Returned (int (first_greater off (lines r)) + 1,
                     sint (off - lines r ! (first_greater off (lines r) - 1) + 1)))"
  using assms(1) by (simp add: Position_locked_def Search_first_greater [OF assms(2)] Let_def)

lemma wf_strings_NewReader: "wf_source (strings_NewReader s)"
  by (simp add: wf_source_def strings_NewReader_def strings_Read_def Let_def)

lemma ex_ops_run:
  "map_option (\<lambda>(r, d). (lines r, offs r, d))
     (exec [OpRead [0, 0], OpReset (strings_NewReader [10, 10]), OpRead [0, 0, 0]]
        (NewReader (strings_NewReader [97, 10, 98]), []))
   = Some ([1, 2], 2, [10, 10])"
  by code_simp

lemma exec_tracks_Some:
  assumes "wf_source (src r)" and "list_all wf_op ops" and "tracks r d"
    and "exec ops (r, d) = Some (r', d')"
  shows "tracks r' d' \<and> wf_source (src r')"
  using exec_tracks [OF assms(1,2,3)] assms(4) by auto

lemma exec_from_new:
  assumes "wf_source s" and "list_all wf_op ops"
    and "exec ops (NewReader s, []) = Some (r, d)"
  shows "tracks r d \<and> wf_source (src r)"
proof -
  have "wf_source (src (NewReader s))" using assms(1) by (simp add: NewReader_def)
  from exec_tracks_Some [OF this assms(2) tracks_NewReader assms(3)] show ?thesis .
qed

lemma list_all_wf_OpRead: "list_all wf_op (map OpRead ps)"
  by (induction ps) simp_all

lemma sle_iff: "(a :: int64) \<le>s b \<longleftrightarrow> sint a \<le> sint b"
  by (rule word_sle_eq)

text \<open>The entries not above an offset are the line breaks of the bytes before it.\<close>
lemma filter_sle_line_breaks:
  assumes "length d < 2 ^ 63" and "0 \<le> sint off" and "sint off \<le> int (length d)"
  shows "filter (\<lambda>e. e \<le>s off) (line_breaks d) = line_breaks (take (nat (sint off)) d)"
proof -
  let ?o = "nat (sint off)"
  let ?d1 = "take ?o d" and ?d2 = "drop ?o d"
  have len1: "length ?d1 = ?o" using assms(2,3) by simp
  have "length ?d1 + length ?d2 < 2 ^ 63" using assms(1) by simp
  from line_breaks_append_gt [OF this] obtain ys where
    ys: "line_breaks (?d1 @ ?d2) = line_breaks ?d1 @ ys" "\<forall>y\<in>set ys. int (length ?d1) < sint y"
    by blast
  have d: "line_breaks d = line_breaks ?d1 @ ys" using ys(1) by simp
  have "length ?d1 < 2 ^ 63" using assms(1) by simp
  then have "\<forall>y\<in>set (line_breaks ?d1). sint y \<le> int (length ?d1)"
    using line_breaks_sint by blast
  then have a: "filter (\<lambda>e. e \<le>s off) (line_breaks ?d1) = line_breaks ?d1"
    using assms(2) by (simp add: sle_iff len1 del: length_take)
  have "\<forall>y\<in>set ys. \<not> y \<le>s off"
    using ys(2) assms(2) by (simp add: sle_iff len1 not_le del: length_take)
  then have b: "filter (\<lambda>e. e \<le>s off) ys = []"
    by (simp add: filter_empty_conv)
  show ?thesis unfolding d filter_append a b by simp
qed

lemma tracks_offs_sint:
  assumes "tracks r d" and "length d < 2 ^ 63"
  shows "sint (offs r) = int (length d)"
  using assms by (simp add: tracks_def sint_of_nat64)

lemma exec_total_new:
  assumes "wf_source s" and "list_all wf_op ops"
  shows "\<exists>r d. exec ops (NewReader s, []) = Some (r, d)"
proof -
  have "wf_source (src (NewReader s))" using assms(1) by (simp add: NewReader_def)
  from exec_tracks [OF this assms(2) tracks_NewReader] show ?thesis by blast
qed

lemma Position_locked_lines:
  "lines r1 = lines r2 \<Longrightarrow> Position_locked r1 off = Position_locked r2 off"
  by (simp add: Position_locked_def Let_def)

lemma ex_chunks_run:
  "map_option snd (exec (map OpRead [[0], [0], [0], [0], [0]])
      (NewReader (strings_NewReader [97, 10, 98, 10, 99]), [])) = Some [97, 10, 98, 10, 99]"
  "map_option snd (exec (map OpRead [[0, 0, 0, 0, 0, 0, 0, 0]])
      (NewReader (strings_NewReader [97, 10, 98, 10, 99]), [])) = Some [97, 10, 98, 10, 99]"
  "map_option (\<lambda>(r, d). fst (Position r 3)) (exec (map OpRead [[0, 0, 0, 0, 0, 0, 0, 0]])
      (NewReader (strings_NewReader [97, 10, 98, 10, 99]), [])) = Some (Returned (2, 2))"
  by code_simp+

lemma ex_more_run:
  "map_option (\<lambda>(r, d). (lines r, offs r, d))
     (exec [OpRead [0, 0]] (NewReader (strings_NewReader [97, 10, 98, 10, 99]), []))
   = Some ([2], 2, [97, 10])"
  "map_option (\<lambda>(r, d). map_option (\<lambda>(r', d'). (lines r', d', fst (Position r 1), fst (Position r' 1)))
                 (exec (map OpRead [[0], [0, 0, 0]]) (r, d)))
     (exec [OpRead [0, 0]] (NewReader (strings_NewReader [97, 10, 98, 10, 99]), []))
   = Some (Some ([2, 4], [97, 10, 98, 10, 99], Returned (1, 2), Returned (1, 2)))"
  by code_simp+

lemma Reader_eqI:
  "mu a = mu b \<Longrightarrow> src a = src b \<Longrightarrow> offs a = offs b \<Longrightarrow> lines a = lines b \<Longrightarrow>
   (a :: 's Reader) = b"
  by (cases a, cases b) simp

lemma Copy_Discard_strings:
  assumes "s \<noteq> []" and "length s \<le> length buf"
  shows "Copy_Discard (Suc (Suc fuel)) (NewReader (strings_NewReader s)) buf 0 =
     Some ((of_nat (length s), None),
           \<lparr>mu = Unlocked, src = strings_NewReader [], offs = of_nat (length s),
              lines = line_breaks s\<rparr>)"
proof -
  let ?r0 = "NewReader (strings_NewReader s)"
  let ?p' = "s @ drop (length s) buf"
  let ?r1 = "\<lparr>mu = Unlocked, src = strings_NewReader [], offs = of_nat (length s),
              lines = line_breaks s\<rparr> :: byte list Reader"
  have io: "io_Read (src ?r0) buf = ((?p', int (length s), None), strings_NewReader [])"
    using assms
    by (simp add: io_Read_def NewReader_def strings_NewReader_def strings_Read_def min_def Let_def)
  have w: "wf_source (src ?r0)" by (simp add: NewReader_def wf_strings_NewReader)
  from Read_tracks [OF w tracks_NewReader, of buf] obtain n err p' r' where
    rd: "Read ?r0 buf = (Returned (n, err, p'), r')"
    and t: "tracks r' ([] @ take (nat n) p')"
    and io': "io_Read (src ?r0) buf = ((p', n, err), src r')"
    by blast
  from io io' have eqs: "p' = ?p'" "n = int (length s)" "err = None" "src r' = strings_NewReader []"
    by simp_all
  have "tracks r' s" using t by (simp add: eqs)
  then have "r' = ?r1"
    by (intro Reader_eqI) (simp_all add: tracks_def eqs)
  with rd eqs have rd1: "Read ?r0 buf = (Returned (int (length s), None, ?p'), ?r1)" by simp
  have io2: "io_Read (src ?r1) ?p' = ((?p', 0, Some EOF), strings_NewReader [])"
    by (simp add: io_Read_def strings_NewReader_def strings_Read_def)
  have "Read ?r1 ?p' = (Returned (0, Some EOF, ?p'),
      ?r1\<lparr>src := strings_NewReader [], offs := offs ?r1 + of_int 0,
        lines := lines ?r1 @ map (\<lambda>k. offs ?r1 + of_nat (Suc k))
                              (filter (\<lambda>k. ?p' ! k = 10) [0..<nat 0])\<rparr>)"
    using io2 by (intro Read_eq) simp_all
  then have rd2: "Read ?r1 ?p' = (Returned (0, Some EOF, ?p'), ?r1)" by simp
  show ?thesis
    by (simp add: rd1 rd2)
qed

lemma length_bytes_of: "length (bytes_of inp) = length inp"
  by (simp add: bytes_of_def)

lemma TestLines_reader_eq:
  assumes "inp \<noteq> []" and "length inp \<le> 8192"
  shows "TestLines_reader inp =
     Some \<lparr>mu = Unlocked, src = strings_NewReader [], offs = of_nat (length inp),
            lines = line_breaks (bytes_of inp)\<rparr>"
proof -
  have a: "bytes_of inp \<noteq> []" using assms(1) by (simp add: bytes_of_def)
  have b: "length (bytes_of inp) \<le> length (replicate 8192 (0 :: byte))"
    using assms(2) by (simp add: length_bytes_of)
  show ?thesis
    unfolding TestLines_reader_def Copy_Discard_strings [OF a b, of "length inp"]
    by (simp add: length_bytes_of)
qed

lemma line_breaks_examples:
  "line_breaks (bytes_of ''foo\<newline>bar\<newline>baz'') = [4, 8]"
  "line_breaks (bytes_of ''foo\<newline>bar\<newline>baz\<newline>'') = [4, 8, 12]"
  by code_simp+

lemma TestLines_readers:
  "TestLines_reader ''foo\<newline>bar\<newline>baz'' = Some foo_bar_baz"
  "TestLines_reader ''foo\<newline>bar\<newline>baz\<newline>'' =
     Some \<lparr>mu = Unlocked, src = strings_NewReader [], offs = 12, lines = [4, 8, 12]\<rparr>"
  by (simp_all add: TestLines_reader_eq line_breaks_examples foo_bar_baz_def)

lemma Position_examples:
  "fst (Position foo_bar_baz 0) = Returned (1, 1)"
  "fst (Position foo_bar_baz 3) = Returned (1, 4)"
  "fst (Position foo_bar_baz 4) = Returned (2, 1)"
  "fst (Position foo_bar_baz 7) = Returned (2, 4)"
  "fst (Position foo_bar_baz 8) = Returned (3, 1)"
  "fst (Position foo_bar_baz 20) = Returned (3, 13)"
  "fst (Position \<lparr>mu = Unlocked, src = strings_NewReader [], offs = 12, lines = [4, 8, 12]\<rparr> 20)
     = Returned (4, 9)"
  by code_simp+

lemma Position_WLocked: "mu r = WLocked \<Longrightarrow> Position r off = (Blocked, r)"
  by (simp add: Position_def RLock_def)

lemma Size_WLocked: "mu r = WLocked \<Longrightarrow> Size r = (Blocked, r)"
  by (simp add: Size_def RLock_def)

lemma mu_Read_source: "mu (snd (Read_source r p)) = mu r"
  by (simp add: Read_source_def split: prod.splits)

lemma Read_run_idle:
  assumes "mu r = Unlocked"
  shows "\<exists>p' n err r1 res r2.
     Read_run r p = [(AtLock p, r), (AtSource p, r\<lparr>mu := WLocked\<rparr>), (AtScan p' n err, r1),
                     (AtUnlock res, r2), (AtReturn res, r2\<lparr>mu := Unlocked\<rparr>)]
     \<and> mu r1 = WLocked \<and> mu r2 = WLocked"
proof -
  obtain p' n err r1 where so: "Read_source (r\<lparr>mu := WLocked\<rparr>) p = ((p', n, err), r1)"
    by (cases "Read_source (r\<lparr>mu := WLocked\<rparr>) p") auto
  have m1: "mu r1 = WLocked"
    using mu_Read_source [of "r\<lparr>mu := WLocked\<rparr>" p] by (simp add: so)
  obtain res r2 where sc: "Read_step (AtScan p' n err, r1) = (AtUnlock res, r2)" and m2: "mu r2 = mu r1"
    by (cases "Read_loop p' n 0 (offs r1) (lines r1)") simp_all
  have "Read_run r p = [(AtLock p, r), (AtSource p, r\<lparr>mu := WLocked\<rparr>), (AtScan p' n err, r1),
                     (AtUnlock res, r2), (AtReturn res, r2\<lparr>mu := Unlocked\<rparr>)]"
    using assms by (simp add: Read_run_def Let_def Lock_def so sc Unlock_def del: Read_step.simps(3))
  with m1 m2 show ?thesis by auto
qed

section \<open>Properties of the Reader\<close>

text \<open>
  C8. After \<^verbatim>\<open>Reset\<close> on an idle Reader the wrapped source is the new one, the count
  of bytes is 0 and the index is empty, which is the newly constructed state; position 0 is
  then line 1, column 1.
\<close>

theorem Reset_clears_state:
  assumes "mu r = Unlocked"
  shows "Reset r nr = (Returned (), NewReader nr)
       \<and> src (snd (Reset r nr)) = nr \<and> offs (snd (Reset r nr)) = 0
       \<and> lines (snd (Reset r nr)) = []
       \<and> fst (Position (snd (Reset r nr)) 0) = Returned (1, 1)"
proof -
  have rs: "Reset r nr = (Returned (), NewReader nr)"
    using assms by (rule Reset_eq)
  have "mu (NewReader nr) \<noteq> WLocked" by (simp add: NewReader_def)
  then have "Position (NewReader nr) 0 = (Position_locked (NewReader nr) 0, NewReader nr)"
    by (rule Position_unlocked)
  moreover have "Position_locked (NewReader nr) 0 = Returned (1, 1)"
    by (simp add: Position_locked_def NewReader_def Search_def Search_loop.simps [of _ 0 0]
        word_sless_alt)
  ultimately show ?thesis
    by (simp add: rs NewReader_def)
qed

theorem Reset_clears_state_witness:
  "mu foo_bar_baz = Unlocked
   \<and> Reset foo_bar_baz (strings_NewReader (bytes_of ''x''))
       = (Returned (), NewReader (strings_NewReader (bytes_of ''x'')))
   \<and> lines (snd (Reset foo_bar_baz (strings_NewReader (bytes_of ''x'')))) = []
   \<and> fst (Position (snd (Reset foo_bar_baz (strings_NewReader (bytes_of ''x'')))) 0)
       = Returned (1, 1)"
proof -
  have h: "mu foo_bar_baz = Unlocked" by (simp add: foo_bar_baz_def)
  show ?thesis
    using h Reset_clears_state [OF h, of "strings_NewReader (bytes_of ''x'')"] by blast
qed

text \<open>
  C7. When no writer holds the lock, \<^verbatim>\<open>Position\<close> with a negative offset panics and
  returns nothing, and with any other offset it returns a pair; either way the Reader is
  left as it was.
\<close>

theorem Position_negative_panics:
  assumes "mu r \<noteq> WLocked"
  shows "(off <s 0 \<longrightarrow>
            Position r off = (Panicked ''Position called with negative offset'', r))
       \<and> (\<not> off <s 0 \<longrightarrow> (\<exists>line col. Position r off = (Returned (line, col), r)))"
  using Position_unlocked [OF assms, of off]
  by (simp add: Position_locked_def Let_def)

theorem Position_negative_panics_witness:
  "mu foo_bar_baz \<noteq> WLocked
   \<and> (-1 :: int64) <s 0
   \<and> Position foo_bar_baz (-1) = (Panicked ''Position called with negative offset'', foo_bar_baz)
   \<and> \<not> (5 :: int64) <s 0
   \<and> (\<exists>line col. Position foo_bar_baz 5 = (Returned (line, col), foo_bar_baz))"
proof -
  have h: "mu foo_bar_baz \<noteq> WLocked" by (simp add: foo_bar_baz_def)
  have n: "(-1 :: int64) <s 0" "\<not> (5 :: int64) <s 0" by (simp_all add: word_sless_alt)
  show ?thesis
    using h n Position_negative_panics [OF h, of "-1"] Position_negative_panics [OF h, of 5]
    by simp
qed

text \<open>
  C3. One \<^verbatim>\<open>Read\<close> on an idle Reader: the request goes to the wrapped source with the
  caller's buffer; of the buffer the source hands back, only the first \<open>n\<close> bytes are
  scanned; for each \<open>'\n'\<close> at index \<open>k\<close> among them, in order, \<open>offs + k + 1\<close> is
  appended to the index; \<open>offs\<close> grows by \<open>n\<close>; the count, the error and the buffer come
  back as the source gave them.
\<close>

theorem Read_passes_through_and_records:
  assumes "mu r = Unlocked"
    and "io_Read (src r) p = ((p', n, err), s')"
    and "n \<le> int (length p')"
  shows "Read r p =
     (Returned (n, err, p'),
      r\<lparr>src := s', offs := offs r + of_int n,
        lines := lines r @ map (\<lambda>k. offs r + of_nat k + 1)
                              (filter (\<lambda>k. p' ! k = 10) [0..<nat n])\<rparr>)"
proof -
  have "(\<lambda>k. offs r + of_nat k + 1) = (\<lambda>k. offs r + of_nat (Suc k))"
    by (rule ext) simp
  then show ?thesis
    using Read_eq [OF assms] by (simp only:)
qed

theorem Read_passes_through_and_records_witness:
  "mu (NewReader (strings_NewReader [97, 10, 98])) = Unlocked
   \<and> io_Read (src (NewReader (strings_NewReader [97, 10, 98]))) [0, 0, 10, 10]
       = (([97, 10, 98, 10], 3, None), strings_NewReader [])
   \<and> (3 :: int) \<le> int (length [97, 10, 98, 10 :: byte])
   \<and> Read (NewReader (strings_NewReader [97, 10, 98])) [0, 0, 10, 10]
       = (Returned (3, None, [97, 10, 98, 10]),
          \<lparr>mu = Unlocked, src = strings_NewReader [], offs = 3, lines = [2]\<rparr>)"
proof -
  let ?r = "NewReader (strings_NewReader [97, 10, 98])"
  have h1: "mu ?r = Unlocked" by (simp add: NewReader_def)
  have h2: "io_Read (src ?r) [0, 0, 10, 10] = (([97, 10, 98, 10], 3, None), strings_NewReader [])"
    by (simp add: NewReader_def strings_NewReader_def io_Read_def strings_Read_def)
  have h3: "(3 :: int) \<le> int (length [97, 10, 98, 10 :: byte])" by simp
  have up: "map (\<lambda>k. of_nat k + 1) (filter (\<lambda>k. [97, 10, 98, 10 :: byte] ! k = 10) [0..<3])
            = [2 :: int64]"
    by (simp add: upt_rec)
  show ?thesis
    using h1 h2 h3 Read_passes_through_and_records [OF h1 h2 h3]
    by (simp add: up NewReader_def)
qed



text \<open>
  C5. From a new Reader, every sequence of \<^verbatim>\<open>Read\<close> and \<^verbatim>\<open>Reset\<close> calls on sources
  that keep the contract of \<^verbatim>\<open>io.Reader\<close> runs through, and as long as the bytes
  delivered by the current source number less than \<open>2^63\<close> (so that \<^verbatim>\<open>int64\<close> holds the
  offsets), the index is strictly ascending and has no duplicates.
\<close>

theorem lines_strictly_ascending:
  assumes "wf_source s" and "list_all wf_op ops"
  shows "\<exists>r d. exec ops (NewReader s, []) = Some (r, d)
           \<and> (length d < 2 ^ 63 \<longrightarrow>
                sorted_wrt (\<lambda>a b. a <s b) (lines r) \<and> distinct (lines r))"
proof -
  have "wf_source (src (NewReader s))" using assms(1) by (simp add: NewReader_def)
  from exec_tracks [OF this assms(2) tracks_NewReader]
  obtain r d where e: "exec ops (NewReader s, []) = Some (r, d)" and t: "tracks r d"
    by blast
  have "sorted_wrt (\<lambda>a b. a <s b) (lines r) \<and> distinct (lines r)" if "length d < 2 ^ 63"
  proof -
    have "sorted_wrt (\<lambda>a b. a <s b) (line_breaks d)" using that by (rule line_breaks_sorted)
    then have "sorted_wrt (\<lambda>a b. a <s b) (lines r)" using t by (simp add: tracks_def)
    then show ?thesis using sorted_sless_distinct by blast
  qed
  with e show ?thesis by blast
qed

theorem lines_strictly_ascending_witness:
  "wf_source (strings_NewReader [97, 10, 98])
   \<and> list_all wf_op [OpRead [0, 0], OpReset (strings_NewReader [10, 10]), OpRead [0, 0, 0]]
   \<and> (\<exists>r d. exec [OpRead [0, 0], OpReset (strings_NewReader [10, 10]), OpRead [0, 0, 0]]
               (NewReader (strings_NewReader [97, 10, 98]), []) = Some (r, d)
            \<and> length d < 2 ^ 63 \<and> lines r = [1, 2]
            \<and> sorted_wrt (\<lambda>a b. a <s b) (lines r) \<and> distinct (lines r))"
proof -
  let ?ops = "[OpRead [0, 0], OpReset (strings_NewReader [10, 10]), OpRead [0, 0, 0]]"
  have h1: "wf_source (strings_NewReader [97, 10, 98])" by (rule wf_strings_NewReader)
  have h2: "list_all wf_op ?ops" by (simp add: wf_strings_NewReader)
  from lines_strictly_ascending [OF h1 h2] obtain r d where
    e: "exec ?ops (NewReader (strings_NewReader [97, 10, 98]), []) = Some (r, d)"
    and s: "length d < 2 ^ 63 \<longrightarrow> sorted_wrt (\<lambda>a b. a <s b) (lines r) \<and> distinct (lines r)"
    by blast
  from ex_ops_run e have v: "lines r = [1, 2]" "d = [10, 10]" by simp_all
  then have "length d < 2 ^ 63" by simp
  with s v e h1 h2 show ?thesis by blast
qed

text \<open>
  C1. After any sequence of calls from a new Reader, for an offset \<open>0 \<le> off < offs\<close> the
  line that \<^verbatim>\<open>Position\<close> returns is one more than the number of index entries \<open>\<le> off\<close>,
  which is the number of \<open>'\n'\<close> among the first \<open>off\<close> bytes that the current source
  has delivered. The delivered bytes number less than \<open>2^63\<close>.
\<close>

theorem Position_line_counts_newlines:
  assumes "wf_source s" and "list_all wf_op ops"
    and "exec ops (NewReader s, []) = Some (r, d)"
    and "length d < 2 ^ 63"
    and "0 \<le>s off" and "off <s offs r"
  shows "\<exists>line col. Position r off = (Returned (line, col), r)
           \<and> line = 1 + int (length (filter (\<lambda>e. e \<le>s off) (lines r)))
           \<and> line = 1 + int (length (filter (\<lambda>b. b = 10) (take (nat (sint off)) d)))"
proof -
  from exec_from_new [OF assms(1,2,3)] have t: "tracks r d" by simp
  have mu: "mu r \<noteq> WLocked" using t by (simp add: tracks_def)
  have l: "lines r = line_breaks d" using t by (simp add: tracks_def)
  have srt: "sorted_wrt (\<lambda>a b. a <s b) (lines r)"
    unfolding l using assms(4) by (rule line_breaks_sorted)
  have nn: "\<not> off <s 0" "0 \<le> sint off" using assms(5) by (simp_all add: word_sle_eq word_sless_alt)
  have lt: "sint off \<le> int (length d)"
    using assms(6) tracks_offs_sint [OF t assms(4)] by (simp add: word_sless_alt)
  let ?i = "first_greater off (lines r)"
  have pos: "Position r off = (Position_locked r off, r)" using mu by (rule Position_unlocked)
  have pl: "Position_locked r off =
     (if ?i = 0 then Returned (1, sint (off + 1))
      else Returned (int ?i + 1, sint (off - lines r ! (?i - 1) + 1)))"
    using nn(1) srt by (rule Position_locked_sorted)
  have cnt: "length (filter (\<lambda>e. e \<le>s off) (lines r)) = ?i"
    using filter_sle_takeWhile [OF srt, of off] by (simp add: first_greater_def)
  have "filter (\<lambda>e. e \<le>s off) (lines r) = line_breaks (take (nat (sint off)) d)"
    unfolding l using assms(4) nn(2) lt by (rule filter_sle_line_breaks)
  then have nl: "?i = length (filter (\<lambda>b. b = 10) (take (nat (sint off)) d))"
    using cnt by (simp add: length_line_breaks)
  show ?thesis
  proof (cases "?i = 0")
    case True
    with pos pl cnt nl show ?thesis by simp
  next
    case False
    with pos pl have "Position r off = (Returned (int ?i + 1, sint (off - lines r ! (?i - 1) + 1)), r)"
      by simp
    moreover have "int ?i + 1 = 1 + int (length (filter (\<lambda>e. e \<le>s off) (lines r)))"
      using cnt by simp
    moreover have "int ?i + 1 = 1 + int (length (filter (\<lambda>b. b = 10) (take (nat (sint off)) d)))"
      using nl by simp
    ultimately show ?thesis by blast
  qed
qed

theorem Position_line_counts_newlines_witness:
  "wf_source (strings_NewReader [97, 10, 98])
   \<and> list_all wf_op [OpRead [0, 0], OpReset (strings_NewReader [10, 10]), OpRead [0, 0, 0]]
   \<and> (\<exists>r d. exec [OpRead [0, 0], OpReset (strings_NewReader [10, 10]), OpRead [0, 0, 0]]
               (NewReader (strings_NewReader [97, 10, 98]), []) = Some (r, d)
            \<and> length d < 2 ^ 63 \<and> 0 \<le>s (1 :: int64) \<and> 1 <s offs r
            \<and> (\<exists>col. Position r 1 = (Returned (2, col), r))
            \<and> 1 + int (length (filter (\<lambda>e. e \<le>s 1) (lines r))) = 2
            \<and> 1 + int (length (filter (\<lambda>b. b = 10) (take (nat (sint (1 :: int64))) d))) = 2)"
proof -
  let ?ops = "[OpRead [0, 0], OpReset (strings_NewReader [10, 10]), OpRead [0, 0, 0]]"
  let ?s = "strings_NewReader [97, 10, 98]"
  have h1: "wf_source ?s" by (rule wf_strings_NewReader)
  have h2: "list_all wf_op ?ops" by (simp add: wf_strings_NewReader)
  from exec_total_new [OF h1 h2] obtain r d where
    e: "exec ?ops (NewReader ?s, []) = Some (r, d)" by blast
  from ex_ops_run e have v: "lines r = [1, 2]" "offs r = 2" "d = [10, 10]" by simp_all
  have h4: "length d < 2 ^ 63" using v by simp
  have h5: "0 \<le>s (1 :: int64)" by (simp add: word_sle_eq)
  have h6: "1 <s offs r" using v by (simp add: word_sless_alt)
  from Position_line_counts_newlines [OF h1 h2 e h4 h5 h6] obtain line col where
    p: "Position r 1 = (Returned (line, col), r)"
    and l1: "line = 1 + int (length (filter (\<lambda>e. e \<le>s 1) (lines r)))"
    and l2: "line = 1 + int (length (filter (\<lambda>b. b = 10) (take (nat (sint (1 :: int64))) d)))"
    by blast
  have "line = 2" using l1 v by (simp add: word_sle_eq)
  with p l1 l2 e h1 h2 h4 h5 h6 show ?thesis by metis
qed

text \<open>
  C4. Two Readers, each new and each read through by some sequence of \<^verbatim>\<open>Read\<close> calls
  on a source that keeps the contract of \<^verbatim>\<open>io.Reader\<close>: if the two sources have
  delivered the same bytes, however they were cut into calls, the Readers hold the same
  count and the same index, and \<^verbatim>\<open>Position\<close> gives the same answer for every offset.
\<close>

theorem Position_chunking_independent:
  assumes "wf_source s1" and "wf_source s2"
    and "exec (map OpRead ps1) (NewReader s1, []) = Some (r1, d)"
    and "exec (map OpRead ps2) (NewReader s2, []) = Some (r2, d)"
  shows "offs r1 = offs r2 \<and> lines r1 = lines r2
       \<and> (\<forall>off. fst (Position r1 off) = fst (Position r2 off))"
proof -
  from exec_from_new [OF assms(1) list_all_wf_OpRead assms(3)] have t1: "tracks r1 d" by simp
  from exec_from_new [OF assms(2) list_all_wf_OpRead assms(4)] have t2: "tracks r2 d" by simp
  have o: "offs r1 = offs r2" and l: "lines r1 = lines r2"
    using t1 t2 by (simp_all add: tracks_def)
  have "fst (Position r1 off) = fst (Position r2 off)" for off
  proof -
    have m: "mu r1 \<noteq> WLocked" "mu r2 \<noteq> WLocked" using t1 t2 by (simp_all add: tracks_def)
    have "Position r1 off = (Position_locked r1 off, r1)" using m(1) by (rule Position_unlocked)
    moreover have "Position r2 off = (Position_locked r2 off, r2)"
      using m(2) by (rule Position_unlocked)
    ultimately show ?thesis using Position_locked_lines [OF l, of off] by simp
  qed
  with o l show ?thesis by blast
qed

theorem Position_chunking_independent_witness:
  "wf_source (strings_NewReader [97, 10, 98, 10, 99])
   \<and> (\<exists>r1 r2. exec (map OpRead [[0], [0], [0], [0], [0]])
                  (NewReader (strings_NewReader [97, 10, 98, 10, 99]), [])
                = Some (r1, [97, 10, 98, 10, 99])
            \<and> exec (map OpRead [[0, 0, 0, 0, 0, 0, 0, 0]])
                  (NewReader (strings_NewReader [97, 10, 98, 10, 99]), [])
                = Some (r2, [97, 10, 98, 10, 99])
            \<and> lines r1 = lines r2
            \<and> fst (Position r1 3) = Returned (2, 2)
            \<and> fst (Position r2 3) = Returned (2, 2))"
proof -
  let ?s = "strings_NewReader [97, 10, 98, 10, 99]"
  let ?d = "[97, 10, 98, 10, 99] :: byte list"
  have h: "wf_source ?s" by (rule wf_strings_NewReader)
  from exec_total_new [OF h list_all_wf_OpRead, of "[[0], [0], [0], [0], [0]]"]
  obtain r1 d1 where e1: "exec (map OpRead [[0], [0], [0], [0], [0]]) (NewReader ?s, []) = Some (r1, d1)"
    by blast
  from exec_total_new [OF h list_all_wf_OpRead, of "[[0, 0, 0, 0, 0, 0, 0, 0]]"]
  obtain r2 d2 where e2: "exec (map OpRead [[0, 0, 0, 0, 0, 0, 0, 0]]) (NewReader ?s, []) = Some (r2, d2)"
    by blast
  from ex_chunks_run(1) e1 have d1: "d1 = ?d" by simp
  from ex_chunks_run(2) e2 have d2: "d2 = ?d" by simp
  from ex_chunks_run(3) e2 have p2: "fst (Position r2 3) = Returned (2, 2)" by simp
  from Position_chunking_independent [OF h h e1 [unfolded d1] e2 [unfolded d2]]
  have "lines r1 = lines r2" "fst (Position r1 3) = fst (Position r2 3)" by simp_all
  with p2 e1 e2 d1 d2 h show ?thesis by metis
qed

text \<open>
  C10. A Reader reached from a new one, then read further by any number of \<^verbatim>\<open>Read\<close>
  calls: the further calls only append entries strictly greater than the old \<open>offs\<close>, and
  for every offset \<open>0 \<le> off < offs\<close> (the old count) \<^verbatim>\<open>Position\<close> answers as before.
  The delivered bytes number less than \<open>2^63\<close>.
\<close>

theorem Position_stable_under_Read:
  assumes "wf_source s" and "list_all wf_op ops"
    and "exec ops (NewReader s, []) = Some (r, d)"
    and "exec (map OpRead ps) (r, d) = Some (r', d')"
    and "length d' < 2 ^ 63"
    and "0 \<le>s off" and "off <s offs r"
  shows "fst (Position r' off) = fst (Position r off)
       \<and> (\<exists>new. lines r' = lines r @ new \<and> (\<forall>e\<in>set new. offs r <s e))"
proof -
  from exec_from_new [OF assms(1,2,3)] have t: "tracks r d" and w: "wf_source (src r)"
    by simp_all
  from exec_tracks_Some [OF w list_all_wf_OpRead t assms(4)] have t': "tracks r' d'"
    by simp
  from exec_reads_extend [OF assms(4)] obtain e where d': "d' = d @ e" by blast
  have len: "length d + length e < 2 ^ 63" "length d < 2 ^ 63"
    using assms(5) by (simp_all add: d')
  from line_breaks_append_gt [OF len(1)] obtain ys where
    ys: "line_breaks (d @ e) = line_breaks d @ ys" "\<forall>y\<in>set ys. int (length d) < sint y"
    by blast
  have l: "lines r = line_breaks d" and l': "lines r' = lines r @ ys"
    using t t' ys(1) by (simp_all add: tracks_def d')
  have so: "sint (offs r) = int (length d)" using t len(2) by (rule tracks_offs_sint)
  have gt_offs: "\<forall>y\<in>set ys. offs r <s y" using ys(2) so by (simp add: word_sless_alt)
  have gt_off: "\<forall>y\<in>set ys. off <s y"
    using ys(2) so assms(7) by (auto simp: word_sless_alt)
  have nn: "\<not> off <s 0" using assms(6) by (simp add: word_sle_eq word_sless_alt)
  have srt: "sorted_wrt (\<lambda>a b. a <s b) (lines r)"
    unfolding l using len(2) by (rule line_breaks_sorted)
  have srt': "sorted_wrt (\<lambda>a b. a <s b) (lines r')"
    using t' line_breaks_sorted [OF assms(5)] by (simp add: tracks_def)
  let ?i = "first_greater off (lines r)"
  have fg: "first_greater off (lines r') = ?i"
    unfolding l' using gt_off by (rule first_greater_append)
  have nth: "lines r' ! (?i - 1) = lines r ! (?i - 1)" if "?i \<noteq> 0"
  proof -
    have "?i - 1 < length (lines r)" using that first_greater_le [of off "lines r"] by simp
    then show ?thesis by (simp add: l' nth_append)
  qed
  have "Position_locked r' off = Position_locked r off"
    using nth by (simp add: Position_locked_sorted [OF nn srt] Position_locked_sorted [OF nn srt'] fg)
  moreover have "Position r off = (Position_locked r off, r)"
    using t by (intro Position_unlocked) (simp add: tracks_def)
  moreover have "Position r' off = (Position_locked r' off, r')"
    using t' by (intro Position_unlocked) (simp add: tracks_def)
  ultimately have "fst (Position r' off) = fst (Position r off)" by simp
  with l' gt_offs show ?thesis by blast
qed

theorem Position_stable_under_Read_witness:
  "wf_source (strings_NewReader [97, 10, 98, 10, 99])
   \<and> list_all wf_op [OpRead [0, 0]]
   \<and> (\<exists>r d r' d'.
         exec [OpRead [0, 0]] (NewReader (strings_NewReader [97, 10, 98, 10, 99]), []) = Some (r, d)
       \<and> exec (map OpRead [[0], [0, 0, 0]]) (r, d) = Some (r', d')
       \<and> length d' < 2 ^ 63 \<and> 0 \<le>s (1 :: int64) \<and> 1 <s offs r
       \<and> lines r = [2] \<and> lines r' = [2, 4]
       \<and> fst (Position r' 1) = fst (Position r 1)
       \<and> fst (Position r 1) = Returned (1, 2))"
proof -
  let ?s = "strings_NewReader [97, 10, 98, 10, 99]"
  have h1: "wf_source ?s" by (rule wf_strings_NewReader)
  have h2: "list_all wf_op [OpRead [0, 0]]" by simp
  from exec_total_new [OF h1 h2] obtain r d where
    e: "exec [OpRead [0, 0]] (NewReader ?s, []) = Some (r, d)" by blast
  from exec_from_new [OF h1 h2 e] have t: "tracks r d" "wf_source (src r)" by simp_all
  from exec_tracks [OF t(2) list_all_wf_OpRead t(1), of "[[0], [0, 0, 0]]"] obtain r' d' where
    e': "exec (map OpRead [[0], [0, 0, 0]]) (r, d) = Some (r', d')" by blast
  from ex_more_run(1) e have v: "lines r = [2]" "offs r = 2" by simp_all
  from ex_more_run(2) e e' have v': "lines r' = [2, 4]" "d' = [97, 10, 98, 10, 99]"
    "fst (Position r 1) = Returned (1, 2)" by simp_all
  have h5: "length d' < 2 ^ 63" using v' by simp
  have h6: "0 \<le>s (1 :: int64)" by (simp add: word_sle_eq)
  have h7: "1 <s offs r" using v by (simp add: word_sless_alt)
  from Position_stable_under_Read [OF h1 h2 e e' h5 h6 h7]
  have "fst (Position r' 1) = fst (Position r 1)" by simp
  with h1 h2 e e' h5 h6 h7 v v' show ?thesis by metis
qed

text \<open>
  C6. The cases of \<^verbatim>\<open>TestLines\<close>: after \<^verbatim>\<open>"foo\nbar\nbaz"\<close> has been copied to
  \<^verbatim>\<open>io.Discard\<close>, \<^verbatim>\<open>Position\<close> gives (1,1) at 0, (1,4) at 3, (2,1) at 4, (2,4) at 7,
  (3,1) at 8 and (3,13) at 20; after \<^verbatim>\<open>"foo\nbar\nbaz\n"\<close> it gives (4,9) at 20.
\<close>

theorem TestLines_cases:
  "TestLines_case ''foo\<newline>bar\<newline>baz'' 0 = Some (Returned (1, 1))
   \<and> TestLines_case ''foo\<newline>bar\<newline>baz'' 3 = Some (Returned (1, 4))
   \<and> TestLines_case ''foo\<newline>bar\<newline>baz'' 4 = Some (Returned (2, 1))
   \<and> TestLines_case ''foo\<newline>bar\<newline>baz'' 7 = Some (Returned (2, 4))
   \<and> TestLines_case ''foo\<newline>bar\<newline>baz'' 8 = Some (Returned (3, 1))
   \<and> TestLines_case ''foo\<newline>bar\<newline>baz'' 20 = Some (Returned (3, 13))
   \<and> TestLines_case ''foo\<newline>bar\<newline>baz\<newline>'' 20 = Some (Returned (4, 9))"
  by (simp only: TestLines_case_def TestLines_readers Position_examples option.map)

text \<open>
  C9, as the claim states it, fails: \<^verbatim>\<open>Read\<close> takes the exclusive lock first and calls
  the wrapped source with the lock held. The call \<^verbatim>\<open>Read\<close> on a new Reader passes through
  the point where the source is called with the lock write-held, and a \<^verbatim>\<open>Position\<close> or
  \<^verbatim>\<open>Size\<close> query on the Reader of that point has to wait.
\<close>

theorem Read_calls_source_with_lock_held:
  "(AtSource [0], (NewReader (strings_NewReader [97]))\<lparr>mu := WLocked\<rparr>)
     \<in> set (Read_run (NewReader (strings_NewReader [97])) [0])
   \<and> mu ((NewReader (strings_NewReader [97]))\<lparr>mu := WLocked\<rparr>) = WLocked
   \<and> fst (Position ((NewReader (strings_NewReader [97]))\<lparr>mu := WLocked\<rparr>) 0) = Blocked
   \<and> fst (Size ((NewReader (strings_NewReader [97]))\<lparr>mu := WLocked\<rparr>)) = Blocked"
  by (simp add: Read_run_def Let_def Lock_def NewReader_def Position_WLocked Size_WLocked)

text \<open>
  C9, amended. A call of \<^verbatim>\<open>Read\<close> on an idle Reader takes the exclusive lock, calls
  the wrapped source while holding it, and releases it only when it returns or panics: the
  call passes through the point where the source is called, with the lock write-held
  there; at every point of the call between taking the lock and the deferred unlock the
  lock is write-held and every \<^verbatim>\<open>Position\<close> and \<^verbatim>\<open>Size\<close> query waits; the call ends
  by returning, and the lock is free again.
\<close>

theorem Read_holds_lock_until_return:
  assumes "mu r = Unlocked"
  shows "(AtSource p, r\<lparr>mu := WLocked\<rparr>) \<in> set (Read_run r p)
       \<and> (\<forall>c\<in>set (Read_run r p). lock_taken (fst c) \<longrightarrow>
             mu (snd c) = WLocked
             \<and> (\<forall>off. fst (Position (snd c) off) = Blocked)
             \<and> fst (Size (snd c)) = Blocked)
       \<and> (\<exists>res r'. last (Read_run r p) = (AtReturn res, r') \<and> Read r p = (res, r')
                    \<and> mu r' = Unlocked)"
proof -
  from Read_run_idle [OF assms, of p] obtain p' n err r1 res r2 where
    run: "Read_run r p = [(AtLock p, r), (AtSource p, r\<lparr>mu := WLocked\<rparr>), (AtScan p' n err, r1),
                          (AtUnlock res, r2), (AtReturn res, r2\<lparr>mu := Unlocked\<rparr>)]"
    and m: "mu r1 = WLocked" "mu r2 = WLocked"
    by blast
  have m0: "mu (r\<lparr>mu := WLocked\<rparr>) = WLocked" by simp
  have a: "(AtSource p, r\<lparr>mu := WLocked\<rparr>) \<in> set (Read_run r p)"
    by (simp add: run)
  have b: "\<forall>c\<in>set (Read_run r p). lock_taken (fst c) \<longrightarrow>
             mu (snd c) = WLocked
             \<and> (\<forall>off. fst (Position (snd c) off) = Blocked)
             \<and> fst (Size (snd c)) = Blocked"
    by (simp add: run m Position_WLocked [OF m0] Size_WLocked [OF m0]
        Position_WLocked [OF m(1)] Size_WLocked [OF m(1)]
        Position_WLocked [OF m(2)] Size_WLocked [OF m(2)])
  have c: "\<exists>res r'. last (Read_run r p) = (AtReturn res, r') \<and> Read r p = (res, r')
                    \<and> mu r' = Unlocked"
    by (simp add: Read_def run)
  from a b c show ?thesis by blast
qed

lemma ex_Read_at_end: "fst (Read foo_bar_baz [0, 0]) = Returned (0, Some EOF, [0, 0])"
  by code_simp

theorem Read_holds_lock_until_return_witness:
  "mu foo_bar_baz = Unlocked
   \<and> (AtSource [0, 0], foo_bar_baz\<lparr>mu := WLocked\<rparr>) \<in> set (Read_run foo_bar_baz [0, 0])
   \<and> lock_taken (fst (AtSource [0, 0], foo_bar_baz\<lparr>mu := WLocked\<rparr>))
   \<and> mu (foo_bar_baz\<lparr>mu := WLocked\<rparr>) = WLocked
   \<and> fst (Position (foo_bar_baz\<lparr>mu := WLocked\<rparr>) 5) = Blocked
   \<and> fst (Size (foo_bar_baz\<lparr>mu := WLocked\<rparr>)) = Blocked
   \<and> fst (Read foo_bar_baz [0, 0]) = Returned (0, Some EOF, [0, 0])
   \<and> mu (snd (Read foo_bar_baz [0, 0])) = Unlocked"
proof -
  have h: "mu foo_bar_baz = Unlocked" by (simp add: foo_bar_baz_def)
  let ?c = "(AtSource [0, 0], foo_bar_baz\<lparr>mu := WLocked\<rparr>)"
  from Read_holds_lock_until_return [OF h, of "[0, 0]"]
  have a: "?c \<in> set (Read_run foo_bar_baz [0, 0])"
    and b: "\<forall>c\<in>set (Read_run foo_bar_baz [0, 0]). lock_taken (fst c) \<longrightarrow>
             mu (snd c) = WLocked
             \<and> (\<forall>off. fst (Position (snd c) off) = Blocked)
             \<and> fst (Size (snd c)) = Blocked"
    and c: "\<exists>res r'. last (Read_run foo_bar_baz [0, 0]) = (AtReturn res, r')
                    \<and> Read foo_bar_baz [0, 0] = (res, r') \<and> mu r' = Unlocked"
    by blast+
  have l: "lock_taken (fst ?c)" by simp
  from b a l have q: "fst (Position (snd ?c) 5) = Blocked" "fst (Size (snd ?c)) = Blocked"
    by blast+
  from c have u: "mu (snd (Read foo_bar_baz [0, 0])) = Unlocked" by auto
  show ?thesis
    using h a l q u ex_Read_at_end by simp
qed

end
